theory Spec2Isabelle
  imports Main
begin

section \<open>The object store\<close>

text \<open>
  backtrack.hpp works on \<^verbatim>\<open>Expression*\<close> throughout: argument vectors, the parts of a
  Fact, the arguments of a Rule and the Database's containers all hold pointers, and
  unification writes through them. The model keeps the pointers: an address is an index
  into the store, the store is the list of the objects allocated so far, and
  \<^verbatim>\<open>new\<close> appends to it. An address at or beyond the end of the store points to no
  object.

  The template parameter \<^verbatim>\<open>T\<close> of \<^verbatim>\<open>Atom<T>\<close> is the tag \<open>'t\<close> (what
  \<^verbatim>\<open>typeid\<close> compares); \<open>'v\<close> is the type of the wrapped values, compared with
  \<^verbatim>\<open>==\<close>.
\<close>

type_synonym addr = nat

datatype ('t, 'v) expression =
    Atom (atom_type: 't) (m_value: 'v) (m_is_unified: bool)
  | Fact (m_parts: "addr list")
  | Rule (m_args: "addr list") (m_predicates: "addr list")

type_synonym ('t, 'v) heap = "('t, 'v) expression list"

text \<open>
  What the C++ leaves undefined is an error value of the model: \<open>OutOfRange\<close> is
  \<^verbatim>\<open>std::vector::operator[]\<close> with an index that is not below \<^verbatim>\<open>size()\<close>,
  \<open>BadPointer\<close> is a member access through a pointer to no object. \<open>OutOfFuel\<close> is not
  an event of the program: the virtual call \<^verbatim>\<open>(*m_parts[i])(arg)\<close> recurses through
  the store, and the model bounds the depth of that recursion by a counter.
\<close>

datatype error = OutOfRange | BadPointer | OutOfFuel

type_synonym ('t, 'v) outcome = "error + (bool \<times> ('t, 'v) heap)"

definition deref :: "('t, 'v) heap \<Rightarrow> addr \<Rightarrow> error + ('t, 'v) expression" where
  "deref h p = (if p < length h then Inr (h ! p) else Inl BadPointer)"

definition at_index :: "'a list \<Rightarrow> nat \<Rightarrow> error + 'a" where
  "at_index xs i = (if i < length xs then Inr (xs ! i) else Inl OutOfRange)"

section \<open>Expression: the virtual members\<close>

datatype 't type_info = AtomT 't | FactT | RuleT

fun typeid :: "('t, 'v) expression \<Rightarrow> 't type_info" where
  "typeid (Atom T v u) = AtomT T"
| "typeid (Fact parts) = FactT"
| "typeid (Rule margs preds) = RuleT"

fun is_unified :: "('t, 'v) expression \<Rightarrow> bool" where
  "is_unified (Atom T v u) = u"
| "is_unified (Fact parts) = True"
| "is_unified (Rule margs preds) = True"

fun set_unified :: "bool \<Rightarrow> ('t, 'v) expression \<Rightarrow> ('t, 'v) expression" where
  "set_unified val (Atom T v u) = Atom T v val"
| "set_unified val (Fact parts) = Fact parts"
| "set_unified val (Rule margs preds) = Rule margs preds"

fun arity :: "('t, 'v) expression \<Rightarrow> nat" where
  "arity (Atom T v u) = 1"
| "arity (Fact parts) = length parts"
| "arity (Rule margs preds) = length margs"

text \<open>The same members called through a pointer, \<^verbatim>\<open>p->is_unified()\<close> and
  \<^verbatim>\<open>p->set_unified(val)\<close>.\<close>

definition is_unified_at :: "('t, 'v) heap \<Rightarrow> addr \<Rightarrow> error + bool" where
  "is_unified_at h p = (case deref h p of Inl e \<Rightarrow> Inl e | Inr obj \<Rightarrow> Inr (is_unified obj))"

definition set_unified_at :: "('t, 'v) heap \<Rightarrow> addr \<Rightarrow> bool \<Rightarrow> error + ('t, 'v) heap" where
  "set_unified_at h p val =
     (case deref h p of Inl e \<Rightarrow> Inl e | Inr obj \<Rightarrow> Inr (h[p := set_unified val obj]))"

section \<open>ununified\_positions and restore\_ununified\<close>

text \<open>The range-for of \<^verbatim>\<open>ununified_positions\<close>, with its counter \<open>i\<close> and the vector
  \<open>positions\<close> built so far.\<close>

fun ununified_from ::
  "('t, 'v) heap \<Rightarrow> nat \<Rightarrow> nat list \<Rightarrow> addr list \<Rightarrow> error + nat list" where
  "ununified_from h i positions [] = Inr positions"
| "ununified_from h i positions (each # rest) =
     (case is_unified_at h each of
        Inl e \<Rightarrow> Inl e
      | Inr u \<Rightarrow> ununified_from h (Suc i) (if \<not> u then positions @ [i] else positions) rest)"

definition ununified_positions :: "('t, 'v) heap \<Rightarrow> addr list \<Rightarrow> error + nat list" where
  "ununified_positions h args = ununified_from h 0 [] args"

fun restore_ununified ::
  "nat list \<Rightarrow> addr list \<Rightarrow> ('t, 'v) heap \<Rightarrow> error + ('t, 'v) heap" where
  "restore_ununified [] args h = Inr h"
| "restore_ununified (pos # positions) args h =
     (case at_index args pos of
        Inl e \<Rightarrow> Inl e
      | Inr p \<Rightarrow>
          (case set_unified_at h p False of
             Inl e \<Rightarrow> Inl e
           | Inr h' \<Rightarrow> restore_ununified positions args h'))"

section \<open>operator() of Atom, Fact and Rule\<close>

text \<open>
  \<^verbatim>\<open>Atom<T>::operator()\<close>, for the Atom whose template parameter is \<open>T\<close> and whose
  \<^verbatim>\<open>m_value\<close> is \<open>value\<close>. Its first statement, \<^verbatim>\<open>auto &arg_ref{*args[0]};\<close>,
  indexes the vector before the size is tested. Binding the reference reads no object;
  \<^verbatim>\<open>typeid(arg_ref)\<close> does, and \<^verbatim>\<open>||\<close> evaluates it only when the size is 1.
\<close>

definition Atom_call :: "'t \<Rightarrow> 'v \<Rightarrow> ('t, 'v) heap \<Rightarrow> addr list \<Rightarrow> ('t, 'v) outcome" where
  "Atom_call T value h args =
     (case at_index args 0 of
        Inl e \<Rightarrow> Inl e
      | Inr arg \<Rightarrow>
          if length args \<noteq> 1 then Inr (False, h)
          else
            (case deref h arg of
               Inl e \<Rightarrow> Inl e
             | Inr arg_ref \<Rightarrow>
                 if typeid arg_ref \<noteq> AtomT T then Inr (False, h)
                 else if \<not> m_is_unified arg_ref then
                   Inr (True, h[arg := set_unified True (Atom (atom_type arg_ref) value (m_is_unified arg_ref))])
                 else Inr (m_value arg_ref = value, h)))"

text \<open>
  The loop of \<^verbatim>\<open>Fact::operator()\<close> from index \<open>i\<close> on, over the parts not yet visited.
  \<open>callee\<close> is the virtual \<^verbatim>\<open>operator()\<close>, \<open>ununified\<close> the positions recorded before
  the loop.
\<close>

fun Fact_loop ::
  "(('t, 'v) heap \<Rightarrow> addr \<Rightarrow> addr list \<Rightarrow> ('t, 'v) outcome) \<Rightarrow> nat list \<Rightarrow> addr list \<Rightarrow>
   nat \<Rightarrow> addr list \<Rightarrow> ('t, 'v) heap \<Rightarrow> ('t, 'v) outcome" where
  "Fact_loop callee ununified args i [] h = Inr (True, h)"
| "Fact_loop callee ununified args i (part # parts) h =
     (case at_index args i of
        Inl e \<Rightarrow> Inl e
      | Inr a \<Rightarrow>
          (case callee h part [a] of
             Inl e \<Rightarrow> Inl e
           | Inr (ok, h1) \<Rightarrow>
               if \<not> ok then
                 (case restore_ununified ununified args h1 of
                    Inl e \<Rightarrow> Inl e
                  | Inr h2 \<Rightarrow> Inr (False, h2))
               else Fact_loop callee ununified args (Suc i) parts h1))"

definition Fact_call ::
  "(('t, 'v) heap \<Rightarrow> addr \<Rightarrow> addr list \<Rightarrow> ('t, 'v) outcome) \<Rightarrow> addr list \<Rightarrow>
   ('t, 'v) heap \<Rightarrow> addr list \<Rightarrow> ('t, 'v) outcome" where
  "Fact_call callee parts h args =
     (if length args \<noteq> length parts then Inr (False, h)
      else
        (case ununified_positions h args of
           Inl e \<Rightarrow> Inl e
         | Inr ununified \<Rightarrow> Fact_loop callee ununified args 0 parts h))"

definition Rule_call :: "addr list \<Rightarrow> ('t, 'v) heap \<Rightarrow> addr list \<Rightarrow> ('t, 'v) outcome" where
  "Rule_call margs h args =
     (if length args \<noteq> length margs then Inr (False, h) else Inr (False, h))"

text \<open>
  \<^verbatim>\<open>(*self)(args)\<close>: the virtual call, dispatched on the object \<open>self\<close> points to.
  The first argument bounds the nesting of virtual calls.
\<close>

primrec call ::
  "nat \<Rightarrow> ('t, 'v) heap \<Rightarrow> addr \<Rightarrow> addr list \<Rightarrow> ('t, 'v) outcome" where
  "call 0 = (\<lambda>h self args. Inl OutOfFuel)"
| "call (Suc n) = (\<lambda>h self args.
     (case deref h self of
        Inl e \<Rightarrow> Inl e
      | Inr (Atom T value u) \<Rightarrow> Atom_call T value h args
      | Inr (Fact parts) \<Rightarrow> Fact_call (call n) parts h args
      | Inr (Rule margs preds) \<Rightarrow> Rule_call margs h args))"

section \<open>Database\<close>

text \<open>
  \<^verbatim>\<open>std::map<T, std::vector<Expression*>>\<close> is a map from names to lists of
  addresses, \<^verbatim>\<open>m_atoms\<close> a list of addresses. The Database allocates in the same store
  its callers use.
\<close>

record 'n database =
  m_expressions :: "'n \<rightharpoonup> addr list"
  m_atoms :: "addr list"

definition empty_database :: "'n database" where
  "empty_database = \<lparr>m_expressions = Map.empty, m_atoms = []\<rparr>"

definition new :: "('t, 'v) heap \<Rightarrow> ('t, 'v) expression \<Rightarrow> addr \<times> ('t, 'v) heap" where
  "new h obj = (length h, h @ [obj])"

text \<open>\<^verbatim>\<open>std::map::operator[]\<close>: a key that is absent is inserted with an empty vector.\<close>

definition map_index :: "('n \<rightharpoonup> addr list) \<Rightarrow> 'n \<Rightarrow> ('n \<rightharpoonup> addr list) \<times> addr list" where
  "map_index m name = (case m name of None \<Rightarrow> (m(name \<mapsto> []), []) | Some l \<Rightarrow> (m, l))"

text \<open>
  An argument of \<^verbatim>\<open>add_fact\<close> is a C++ value of some type \<open>U\<close> or a \<^verbatim>\<open>Variable<U>\<close>;
  an argument of \<^verbatim>\<open>add_rule\<close> is an \<^verbatim>\<open>Expression*\<close> or a \<^verbatim>\<open>Variable<U>\<close>.
  \<^verbatim>\<open>new Atom<U>\<close> default-initialises \<^verbatim>\<open>m_value\<close>; the value types are the host
  program's, so what a default-initialised \<open>U\<close> holds is the parameter \<open>dflt\<close>.
\<close>

datatype ('t, 'v) fact_arg = Value 't 'v | Variable 't

datatype 't rule_arg = Expr addr | Var 't

fun add_atom ::
  "('t \<Rightarrow> 'v) \<Rightarrow> ('t, 'v) fact_arg \<Rightarrow> ('t, 'v) heap \<times> 'n database \<times> addr list \<Rightarrow>
   ('t, 'v) heap \<times> 'n database \<times> addr list" where
  "add_atom dflt (Value U atom) (h, db, so_far) =
     (let (new_atom, h') = new h (Atom U atom True)
      in (h', db\<lparr>m_atoms := m_atoms db @ [new_atom]\<rparr>, so_far @ [new_atom]))"
| "add_atom dflt (Variable U) (h, db, so_far) =
     (let (new_atom, h') = new h (Atom U (dflt U) False)
      in (h', db\<lparr>m_atoms := m_atoms db @ [new_atom]\<rparr>, so_far @ [new_atom]))"

fun add_arg ::
  "('t \<Rightarrow> 'v) \<Rightarrow> 't rule_arg \<Rightarrow> ('t, 'v) heap \<times> 'n database \<times> addr list \<Rightarrow>
   ('t, 'v) heap \<times> 'n database \<times> addr list" where
  "add_arg dflt (Expr expr) (h, db, so_far) = (h, db, so_far @ [expr])"
| "add_arg dflt (Var U) (h, db, so_far) =
     (let (new_atom, h') = new h (Atom U (dflt U) False)
      in (h', db\<lparr>m_atoms := m_atoms db @ [new_atom]\<rparr>, so_far @ [new_atom]))"

text \<open>The fold expression \<^verbatim>\<open>(add_atom(atoms, atoms_so_far), ...)\<close> runs left to right.\<close>

definition add_fact ::
  "('t \<Rightarrow> 'v) \<Rightarrow> 'n \<Rightarrow> ('t, 'v) fact_arg list \<Rightarrow> ('t, 'v) heap \<times> 'n database \<Rightarrow>
   addr \<times> ('t, 'v) heap \<times> 'n database" where
  "add_fact dflt name atoms s =
     (let (h1, db1, atoms_so_far) = fold (add_atom dflt) atoms (fst s, snd s, []);
          (new_fact, h2) = new h1 (Fact atoms_so_far);
          (m, l) = map_index (m_expressions db1) name
      in (new_fact, h2, db1\<lparr>m_expressions := m(name \<mapsto> l @ [new_fact])\<rparr>))"

definition add_rule ::
  "('t \<Rightarrow> 'v) \<Rightarrow> 'n \<Rightarrow> 't rule_arg list \<Rightarrow> ('t, 'v) heap \<times> 'n database \<Rightarrow>
   addr \<times> ('t, 'v) heap \<times> 'n database" where
  "add_rule dflt name args s =
     (let (h1, db1, args_so_far) = fold (add_arg dflt) args (fst s, snd s, []);
          (new_rule, h2) = new h1 (Rule args_so_far []);
          (m, l) = map_index (m_expressions db1) name
      in (new_rule, h2, db1\<lparr>m_expressions := m(name \<mapsto> l @ [new_rule])\<rparr>))"

text \<open>\<^verbatim>\<open>std::find_if\<close> with the predicate \<^verbatim>\<open>expr->arity() == arity\<close>; \<open>None\<close> is the
  end iterator.\<close>

fun find_if_arity :: "('t, 'v) heap \<Rightarrow> nat \<Rightarrow> addr list \<Rightarrow> error + addr option" where
  "find_if_arity h n [] = Inr None"
| "find_if_arity h n (expr # rest) =
     (case deref h expr of
        Inl e \<Rightarrow> Inl e
      | Inr obj \<Rightarrow> if arity obj = n then Inr (Some expr) else find_if_arity h n rest)"

text \<open>\<^verbatim>\<open>Database::get\<close>; it is not const and reaches the vector through
  \<^verbatim>\<open>m_expressions[name]\<close> each time, so the model returns the Database as well.\<close>

definition get ::
  "('t, 'v) heap \<Rightarrow> 'n database \<Rightarrow> 'n \<Rightarrow> nat \<Rightarrow> error + (addr option \<times> 'n database)" where
  "get h db name n =
     (if m_expressions db name = None then Inr (None, db)
      else
        (let (m1, l1) = map_index (m_expressions db) name;
             (m2, l2) = map_index m1 name
         in (case find_if_arity h n l1 of
               Inl e \<Rightarrow> Inl e
             | Inr match \<Rightarrow>
                 (let (m3, l3) = map_index m2 name
                  in (case match of
                        None \<Rightarrow> Inr (None, db\<lparr>m_expressions := m3\<rparr>)
                      | Some expr \<Rightarrow> Inr (Some expr, db\<lparr>m_expressions := m3\<rparr>))))))"

section \<open>Sequences of registrations\<close>

text \<open>A host program's calls of \<^verbatim>\<open>add_fact\<close> and \<^verbatim>\<open>add_rule\<close>, run in order; the
  references the calls return are dropped. \<open>supplied\<close> lists the \<^verbatim>\<open>Expression*\<close>
  arguments a call passes in.\<close>

datatype ('n, 't, 'v) command =
    AddFact 'n "('t, 'v) fact_arg list"
  | AddRule 'n "'t rule_arg list"

fun exec ::
  "('t \<Rightarrow> 'v) \<Rightarrow> ('n, 't, 'v) command \<Rightarrow> ('t, 'v) heap \<times> 'n database \<Rightarrow>
   ('t, 'v) heap \<times> 'n database" where
  "exec dflt (AddFact name atoms) s = snd (add_fact dflt name atoms s)"
| "exec dflt (AddRule name args) s = snd (add_rule dflt name args s)"

definition run ::
  "('t \<Rightarrow> 'v) \<Rightarrow> ('n, 't, 'v) command list \<Rightarrow> ('t, 'v) heap \<times> 'n database \<Rightarrow>
   ('t, 'v) heap \<times> 'n database" where
  "run dflt cmds s = fold (exec dflt) cmds s"

fun pointers :: "'t rule_arg list \<Rightarrow> addr list" where
  "pointers [] = []"
| "pointers (Expr expr # args) = expr # pointers args"
| "pointers (Var U # args) = pointers args"

fun supplied :: "('n, 't, 'v) command \<Rightarrow> addr list" where
  "supplied (AddFact name atoms) = []"
| "supplied (AddRule name args) = pointers args"

section \<open>Notions used in the statements and proofs\<close>

text \<open>
  \<open>evolves S h h'\<close>: the store \<open>h'\<close> has the objects of \<open>h\<close> at the same addresses and
  with the same dynamic types, and differs from \<open>h\<close> at most at Atoms of \<open>S\<close> that are not
  unified in \<open>h\<close>. Every \<^verbatim>\<open>operator()\<close> relates the stores before and after it in
  this way, with \<open>S\<close> its argument vector.
\<close>

definition evolves :: "addr set \<Rightarrow> ('t, 'v) heap \<Rightarrow> ('t, 'v) heap \<Rightarrow> bool" where
  "evolves S h h' \<longleftrightarrow>
     length h' = length h \<and>
     (\<forall>p<length h. typeid (h' ! p) = typeid (h ! p) \<and>
        (is_unified (h ! p) \<or> p \<notin> S \<longrightarrow> h' ! p = h ! p))"

text \<open>The vector registered under a name; a name that was never registered has none.\<close>

definition stored :: "'n database \<Rightarrow> 'n \<Rightarrow> addr list" where
  "stored db name = (case m_expressions db name of None \<Rightarrow> [] | Some l \<Rightarrow> l)"

text \<open>
  The pointers an object holds, and reachability along them: \<open>reaches h a b\<close> when
  following the parts of Facts and the arguments and predicates of Rules leads from
  address \<open>a\<close> to address \<open>b\<close> in the store \<open>h\<close>.
\<close>

fun children :: "('t, 'v) expression \<Rightarrow> addr list" where
  "children (Atom T v u) = []"
| "children (Fact parts) = parts"
| "children (Rule margs preds) = margs @ preds"

inductive reaches :: "('t, 'v) heap \<Rightarrow> addr \<Rightarrow> addr \<Rightarrow> bool" for h :: "('t, 'v) heap" where
  here: "reaches h a a"
| step: "reaches h a b \<Longrightarrow> deref h b = Inr obj \<Longrightarrow> c \<in> set (children obj) \<Longrightarrow> reaches h a c"

code_pred reaches .

text \<open>
  The invariant of the registrations: the pool holds Atoms of the store; a registered
  expression is a Fact or a Rule of the store, and each pointer it holds is in the pool
  or in the set \<open>X\<close> of pointers that callers passed in.
\<close>

definition owned :: "addr set \<Rightarrow> ('t, 'v) heap \<Rightarrow> 'n database \<Rightarrow> bool" where
  "owned X h db \<longleftrightarrow>
     (\<forall>a\<in>set (m_atoms db). a < length h \<and> is_Atom (h ! a)) \<and>
     (\<forall>name. \<forall>e\<in>set (stored db name).
        e < length h \<and> \<not> is_Atom (h ! e) \<and> set (children (h ! e)) \<subseteq> set (m_atoms db) \<union> X)"

section \<open>Examples\<close>

text \<open>A store: the fact parent(alice, bob), an unbound Atom, and two more bound
  Atoms, one of another value type.\<close>

definition family :: "(string, string) heap" where
  "family = [Atom ''string'' ''alice'' True, Atom ''string'' ''bob'' True, Fact [0, 1],
             Atom ''string'' '''' False, Atom ''string'' ''zoe'' True,
             Atom ''int'' ''7'' True]"

text \<open>A Database with three registrations under one name, of arities 1, 2 and 2, built
  in an empty store; a default-initialised value is the empty string there.\<close>

definition default_initialised :: "string \<Rightarrow> string" where
  "default_initialised U = ''''"

definition registry :: "(string, string) heap \<times> string database" where
  "registry = run default_initialised
     [AddFact ''parent'' [Value ''string'' ''alice''],
      AddFact ''parent'' [Value ''string'' ''alice'', Value ''string'' ''bob''],
      AddRule ''parent'' [Var ''string'', Var ''string'']]
     ([], empty_database)"

section \<open>What an operator() can change\<close>

lemma evolves_refl: "evolves S h h"
  by (simp add: evolves_def)

lemma evolves_length: "evolves S h h' \<Longrightarrow> length h' = length h"
  unfolding evolves_def by blast

lemma evolves_typeid: "evolves S h h' \<Longrightarrow> p < length h \<Longrightarrow> typeid (h' ! p) = typeid (h ! p)"
  unfolding evolves_def by blast

lemma evolves_same:
  "evolves S h h' \<Longrightarrow> p < length h \<Longrightarrow> is_unified (h ! p) \<or> p \<notin> S \<Longrightarrow> h' ! p = h ! p"
  unfolding evolves_def by blast

lemma evolves_trans:
  assumes a: "evolves S h h1" and b: "evolves S h1 h2"
  shows "evolves S h h2"
proof -
  have len: "length h1 = length h" "length h2 = length h1"
    using a b by (simp_all add: evolves_length)
  have "typeid (h2 ! p) = typeid (h ! p) \<and> (is_unified (h ! p) \<or> p \<notin> S \<longrightarrow> h2 ! p = h ! p)"
    if p: "p < length h" for p
  proof (intro conjI impI)
    show "typeid (h2 ! p) = typeid (h ! p)"
      using evolves_typeid [OF a p] evolves_typeid [OF b, of p] p len by simp
  next
    assume c: "is_unified (h ! p) \<or> p \<notin> S"
    from evolves_same [OF a p c] have e1: "h1 ! p = h ! p" .
    with c have "is_unified (h1 ! p) \<or> p \<notin> S" by simp
    from evolves_same [OF b _ this] p len have "h2 ! p = h1 ! p" by simp
    with e1 show "h2 ! p = h ! p" by simp
  qed
  with len show ?thesis by (simp add: evolves_def)
qed

lemma evolves_mono: "S \<subseteq> S' \<Longrightarrow> evolves S h h' \<Longrightarrow> evolves S' h h'"
  unfolding evolves_def by blast

lemma typeid_set_unified: "typeid (set_unified val obj) = typeid obj"
  by (cases obj) simp_all

lemma not_unified_set_False: "typeid obj' = typeid obj \<Longrightarrow> \<not> is_unified obj \<Longrightarrow> \<not> is_unified (set_unified False obj')"
  by (cases obj; cases obj') simp_all

lemma Atom_call_evolves:
  assumes "Atom_call T v h args = Inr (r, h')"
  shows "evolves (set args) h h'"
proof (cases args)
  case Nil
  with assms show ?thesis by (simp add: Atom_call_def at_index_def)
next
  case (Cons a rest)
  show ?thesis
  proof (cases "rest = [] \<and> a < length h \<and> typeid (h ! a) = AtomT T \<and> \<not> m_is_unified (h ! a)")
    case False
    with assms Cons have "h' = h"
      by (auto simp: Atom_call_def at_index_def deref_def split: if_splits)
    then show ?thesis by (simp add: evolves_refl)
  next
    case True
    then obtain x u where obj: "h ! a = Atom T x u" by (cases "h ! a") simp_all
    with True have u: "\<not> u" by simp
    from assms Cons True obj u have "h' = h[a := Atom T v True]"
      by (simp add: Atom_call_def at_index_def deref_def)
    with True Cons obj u show ?thesis
      by (auto simp: evolves_def nth_list_update)
  qed
qed

lemma ununified_from_sound:
  "ununified_from h i acc args = Inr ps \<Longrightarrow>
     (\<forall>a\<in>set args. a < length h) \<and>
     set ps = set acc \<union> {i + j |j. j < length args \<and> \<not> is_unified (h ! (args ! j))}"
proof (induction args arbitrary: i acc)
  case Nil
  then show ?case by simp
next
  case (Cons each rest)
  from Cons.prems have v: "each < length h"
    by (simp add: is_unified_at_def deref_def split: if_splits)
  with Cons.prems have
    rec: "ununified_from h (Suc i) (if \<not> is_unified (h ! each) then acc @ [i] else acc) rest = Inr ps"
    by (simp add: is_unified_at_def deref_def)
  note ih = Cons.IH [OF rec]
  have "{i + j |j. j < length (each # rest) \<and> \<not> is_unified (h ! ((each # rest) ! j))} =
        (if \<not> is_unified (h ! each) then {i} else {}) \<union>
        {Suc i + j |j. j < length rest \<and> \<not> is_unified (h ! (rest ! j))}"
    (is "?L = ?R")
  proof (intro set_eqI iffI)
    fix x assume "x \<in> ?L"
    then obtain j where j: "x = i + j" "j < length (each # rest)" "\<not> is_unified (h ! ((each # rest) ! j))"
      by blast
    then show "x \<in> ?R" by (cases j) auto
  next
    fix x assume "x \<in> ?R"
    then consider "x = i" "\<not> is_unified (h ! each)"
      | j where "x = Suc i + j" "j < length rest" "\<not> is_unified (h ! (rest ! j))"
      by (auto split: if_splits)
    then show "x \<in> ?L"
    proof cases
      case 1
      then have "x = i + 0 \<and> 0 < length (each # rest) \<and> \<not> is_unified (h ! ((each # rest) ! 0))" by simp
      then show ?thesis by blast
    next
      case 2
      then have "x = i + Suc j \<and> Suc j < length (each # rest) \<and> \<not> is_unified (h ! ((each # rest) ! Suc j))" by simp
      then show ?thesis by blast
    qed
  qed
  with ih v show ?case by auto
qed

lemma ununified_positions_sound:
  assumes "ununified_positions h args = Inr ps"
  shows "(\<forall>a\<in>set args. a < length h)"
    and "set ps = {j. j < length args \<and> \<not> is_unified (h ! (args ! j))}"
  using ununified_from_sound [of h 0 "[]" args ps] assms
  by (simp_all add: ununified_positions_def)

lemma restore_ununified_sound:
  "restore_ununified positions args h = Inr h' \<Longrightarrow>
     length h' = length h \<and> (\<forall>pos\<in>set positions. pos < length args) \<and>
     (\<forall>p<length h. h' ! p = (if p \<in> (\<lambda>pos. args ! pos) ` set positions
                                then set_unified False (h ! p) else h ! p))"
proof (induction positions arbitrary: h)
  case Nil
  then show ?case by simp
next
  case (Cons pos positions)
  from Cons.prems have pos: "pos < length args"
    by (simp add: at_index_def split: if_splits)
  with Cons.prems have p: "args ! pos < length h"
    by (simp add: at_index_def set_unified_at_def deref_def split: if_splits)
  let ?h1 = "h[args ! pos := set_unified False (h ! (args ! pos))]"
  from Cons.prems pos p have rec: "restore_ununified positions args ?h1 = Inr h'"
    by (simp add: at_index_def set_unified_at_def deref_def)
  from Cons.IH [OF rec] have len: "length h' = length h"
    and rng: "\<forall>pos\<in>set positions. pos < length args"
    and val: "\<forall>p<length h. h' ! p = (if p \<in> (\<lambda>pos. args ! pos) ` set positions
                                then set_unified False (?h1 ! p) else ?h1 ! p)"
    by simp_all
  have idem: "\<And>obj::('a, 'b) expression. set_unified False (set_unified False obj) = set_unified False obj"
    by (case_tac obj) simp_all
  have "\<forall>p<length h. h' ! p = (if p \<in> (\<lambda>pos. args ! pos) ` set (pos # positions)
                                then set_unified False (h ! p) else h ! p)"
  proof (intro allI impI)
    fix p assume pl: "p < length h"
    show "h' ! p = (if p \<in> (\<lambda>pos. args ! pos) ` set (pos # positions)
                                then set_unified False (h ! p) else h ! p)"
      using val pl p idem by (cases "p = args ! pos") (simp_all add: nth_list_update)
  qed
  with len rng pos show ?case by simp
qed

lemma restore_after_evolves:
  assumes ev: "evolves (set args) h0 h1"
    and un: "set ununified = {j. j < length args \<and> \<not> is_unified (h0 ! (args ! j))}"
    and rs: "restore_ununified ununified args h1 = Inr h2"
  shows "evolves (set args) h0 h2 \<and> (\<forall>p<length h0. is_unified (h2 ! p) = is_unified (h0 ! p))"
proof -
  note len1 = evolves_length [OF ev]
  from restore_ununified_sound [OF rs] len1 have len2: "length h2 = length h0"
    and val: "\<And>p. p < length h0 \<Longrightarrow> h2 ! p =
       (if p \<in> (\<lambda>pos. args ! pos) ` set ununified then set_unified False (h1 ! p) else h1 ! p)"
    by simp_all
  have U: "p \<in> (\<lambda>pos. args ! pos) ` set ununified \<longleftrightarrow> p \<in> set args \<and> \<not> is_unified (h0 ! p)" for p
  proof
    assume "p \<in> (\<lambda>pos. args ! pos) ` set ununified"
    then obtain j where "j \<in> set ununified" "p = args ! j" by blast
    with un show "p \<in> set args \<and> \<not> is_unified (h0 ! p)" by simp
  next
    assume a: "p \<in> set args \<and> \<not> is_unified (h0 ! p)"
    then obtain j where "j < length args" "args ! j = p" by (auto simp: in_set_conv_nth)
    with a un have "j \<in> set ununified" "p = args ! j" by simp_all
    then show "p \<in> (\<lambda>pos. args ! pos) ` set ununified" by blast
  qed
  have "typeid (h2 ! p) = typeid (h0 ! p) \<and>
        (is_unified (h0 ! p) \<or> p \<notin> set args \<longrightarrow> h2 ! p = h0 ! p) \<and>
        is_unified (h2 ! p) = is_unified (h0 ! p)" if p: "p < length h0" for p
  proof (cases "p \<in> set args \<and> \<not> is_unified (h0 ! p)")
    case True
    with val [OF p] U have e: "h2 ! p = set_unified False (h1 ! p)" by simp
    from evolves_typeid [OF ev p] have t: "typeid (h1 ! p) = typeid (h0 ! p)" .
    from True not_unified_set_False [OF t] e have "\<not> is_unified (h2 ! p)" by simp
    with True e t show ?thesis by (simp add: typeid_set_unified)
  next
    case False
    with val [OF p] U have e: "h2 ! p = h1 ! p" by simp
    from False have "is_unified (h0 ! p) \<or> p \<notin> set args" by blast
    from evolves_same [OF ev p this] e show ?thesis by simp
  qed
  with len2 show ?thesis by (simp add: evolves_def)
qed

lemma Fact_loop_evolves:
  assumes callee: "\<And>h p a r h'. callee h p [a] = Inr (r, h') \<Longrightarrow> evolves {a} h h'"
    and un: "set ununified = {j. j < length args \<and> \<not> is_unified (h0 ! (args ! j))}"
  shows "evolves (set args) h0 h1 \<Longrightarrow>
         Fact_loop callee ununified args i parts h1 = Inr (r, h2) \<Longrightarrow>
         evolves (set args) h0 h2 \<and>
         (\<not> r \<longrightarrow> (\<forall>p<length h0. is_unified (h2 ! p) = is_unified (h0 ! p)))"
proof (induction parts arbitrary: i h1)
  case Nil
  then show ?case by simp
next
  case (Cons part parts)
  from Cons.prems(2) have i: "i < length args"
    by (simp add: at_index_def split: if_splits)
  with Cons.prems(2) obtain ok h1' where c: "callee h1 part [args ! i] = Inr (ok, h1')"
    by (auto simp: at_index_def split: sum.splits)
  from callee [OF c] have "evolves {args ! i} h1 h1'" .
  moreover from i have "{args ! i} \<subseteq> set args" by simp
  ultimately have "evolves (set args) h1 h1'" by (rule evolves_mono [rotated])
  with Cons.prems(1) have ev: "evolves (set args) h0 h1'" by (rule evolves_trans)
  show ?case
  proof (cases ok)
    case True
    with Cons.prems(2) i c have "Fact_loop callee ununified args (Suc i) parts h1' = Inr (r, h2)"
      by (simp add: at_index_def)
    from Cons.IH [OF ev this] show ?thesis .
  next
    case False
    with Cons.prems(2) i c have rs: "restore_ununified ununified args h1' = Inr h2" and r: "\<not> r"
      by (auto simp: at_index_def split: sum.splits)
    from restore_after_evolves [OF ev un rs] r show ?thesis by simp
  qed
qed

lemma Fact_call_evolves:
  assumes callee: "\<And>h p a r h'. callee h p [a] = Inr (r, h') \<Longrightarrow> evolves {a} h h'"
    and res: "Fact_call callee parts h args = Inr (r, h')"
  shows "evolves (set args) h h' \<and> (\<not> r \<longrightarrow> (\<forall>p<length h. is_unified (h' ! p) = is_unified (h ! p)))"
proof (cases "length args \<noteq> length parts")
  case True
  with res have "h' = h" by (simp add: Fact_call_def)
  then show ?thesis by (simp add: evolves_refl)
next
  case False
  with res obtain ununified where u: "ununified_positions h args = Inr ununified"
    and l: "Fact_loop callee ununified args 0 parts h = Inr (r, h')"
    by (auto simp: Fact_call_def split: sum.splits)
  note un = ununified_positions_sound(2) [OF u]
  show ?thesis by (rule Fact_loop_evolves [OF callee un evolves_refl l])
qed

lemma call_evolves:
  fixes h :: "('t, 'v) heap"
  shows "call n h self args = Inr (r, h') \<Longrightarrow> evolves (set args) h h'"
proof (induction n arbitrary: h self args r h')
  case 0
  then show ?case by simp
next
  case (Suc n)
  from Suc.prems obtain obj where d: "deref h self = Inr obj"
    by (auto split: sum.splits)
  show ?case
  proof (cases obj)
    case (Atom T v u)
    with Suc.prems d show ?thesis by (simp add: Atom_call_evolves)
  next
    case (Fact parts)
    with Suc.prems d have f: "Fact_call (call n) parts h args = Inr (r, h')" by simp
    have "\<And>(h::('t, 'v) heap) p a r h'. call n h p [a] = Inr (r, h') \<Longrightarrow> evolves {a} h h'"
    proof -
      fix h :: "('t, 'v) heap" and p a r h' assume "call n h p [a] = Inr (r, h')"
      from Suc.IH [OF this] show "evolves {a} h h'" by simp
    qed
    from Fact_call_evolves [OF this f] show ?thesis by simp
  next
    case (Rule margs preds)
    with Suc.prems d show ?thesis by (simp add: Rule_call_def evolves_refl)
  qed
qed

text \<open>The counter only bounds the nesting of virtual calls: a call that returns with
  one bound returns the same with every larger bound.\<close>

lemma Fact_loop_callee_mono:
  assumes c: "\<And>h p a r. callee h p a = Inr r \<Longrightarrow> callee' h p a = Inr r"
  shows "Fact_loop callee ununified args i parts h = Inr r \<Longrightarrow>
         Fact_loop callee' ununified args i parts h = Inr r"
proof (induction parts arbitrary: i h)
  case Nil
  then show ?case by simp
next
  case (Cons part parts)
  from Cons.prems have i: "i < length args"
    by (simp add: at_index_def split: if_splits)
  with Cons.prems obtain ok h1 where r1: "callee h part [args ! i] = Inr (ok, h1)"
    by (auto simp: at_index_def split: sum.splits)
  from c [OF r1] have r2: "callee' h part [args ! i] = Inr (ok, h1)" .
  show ?case
  proof (cases ok)
    case True
    with Cons.prems i r1 have "Fact_loop callee ununified args (Suc i) parts h1 = Inr r"
      by (simp add: at_index_def)
    from Cons.IH [OF this] True i r2 show ?thesis by (simp add: at_index_def)
  next
    case False
    with Cons.prems i r1 r2 show ?thesis by (simp add: at_index_def)
  qed
qed

lemma Fact_call_callee_mono:
  assumes c: "\<And>h p a r. callee h p a = Inr r \<Longrightarrow> callee' h p a = Inr r"
    and f: "Fact_call callee parts h args = Inr r"
  shows "Fact_call callee' parts h args = Inr r"
proof (cases "length args \<noteq> length parts")
  case True
  with f show ?thesis by (simp add: Fact_call_def)
next
  case False
  with f obtain ununified where u: "ununified_positions h args = Inr ununified"
    and l: "Fact_loop callee ununified args 0 parts h = Inr r"
    by (auto simp: Fact_call_def split: sum.splits)
  from Fact_loop_callee_mono [of callee callee', OF c l] False u show ?thesis
    by (simp add: Fact_call_def)
qed

lemma call_fuel_mono:
  fixes h :: "('t, 'v) heap"
  shows "call n h self args = Inr r \<Longrightarrow> call (Suc n) h self args = Inr r"
proof (induction n arbitrary: h self args r)
  case 0
  then show ?case by simp
next
  case (Suc n)
  from Suc.prems obtain obj where d: "deref h self = Inr obj"
    by (auto split: sum.splits)
  show ?case
  proof (cases obj)
    case (Atom T v u)
    with Suc.prems d show ?thesis by simp
  next
    case (Fact parts)
    with Suc.prems d have f: "Fact_call (call n) parts h args = Inr r" by simp
    have m: "\<And>(h::('t, 'v) heap) p a r. call n h p a = Inr r \<Longrightarrow> call (Suc n) h p a = Inr r"
      by (rule Suc.IH)
    have "Fact_call (call (Suc n)) parts h args = Inr r"
      by (rule Fact_call_callee_mono [of "call n" "call (Suc n)", OF m f])
    moreover have "call (Suc (Suc n)) h self args = Fact_call (call (Suc n)) parts h args"
      using d Fact by (subst call.simps(2)) simp
    ultimately show ?thesis by simp
  next
    case (Rule margs preds)
    with Suc.prems d show ?thesis by simp
  qed
qed

section \<open>Fact unification\<close>

text \<open>
  C1 (as amended). When unification against a Fact returns false, no object has moved or
  changed its dynamic type, every object has the unification status it had before the
  call, and every object that was unified before the call or is not in the argument
  vector is unchanged altogether. The value of an argument Atom that was not unified
  before the call is not covered: \<^verbatim>\<open>restore_ununified\<close> resets the flag only.
\<close>

theorem Fact_call_failure_restores:
  fixes h :: "('t, 'v) heap"
  assumes f: "deref h f = Inr (Fact parts)"
    and res: "call n h f args = Inr (False, h')"
  shows "length h' = length h \<and>
         (\<forall>p<length h. is_unified (h' ! p) = is_unified (h ! p) \<and>
                        typeid (h' ! p) = typeid (h ! p) \<and>
                        (is_unified (h ! p) \<or> p \<notin> set args \<longrightarrow> h' ! p = h ! p))"
proof -
  from res obtain m where n: "n = Suc m" by (cases n) simp_all
  with f res have fc: "Fact_call (call m) parts h args = Inr (False, h')" by simp
  have "\<And>(h::('t, 'v) heap) p a r h'. call m h p [a] = Inr (r, h') \<Longrightarrow> evolves {a} h h'"
  proof -
    fix h :: "('t, 'v) heap" and p a r h' assume "call m h p [a] = Inr (r, h')"
    from call_evolves [OF this] show "evolves {a} h h'" by simp
  qed
  from Fact_call_evolves [OF this fc]
  have ev: "evolves (set args) h h'" and st: "\<forall>p<length h. is_unified (h' ! p) = is_unified (h ! p)"
    by simp_all
  have "is_unified (h' ! p) = is_unified (h ! p) \<and> typeid (h' ! p) = typeid (h ! p) \<and>
        (is_unified (h ! p) \<or> p \<notin> set args \<longrightarrow> h' ! p = h ! p)" if p: "p < length h" for p
  proof (intro conjI impI)
    show "is_unified (h' ! p) = is_unified (h ! p)" using st p by simp
    show "typeid (h' ! p) = typeid (h ! p)" by (rule evolves_typeid [OF ev p])
    assume "is_unified (h ! p) \<or> p \<notin> set args"
    then show "h' ! p = h ! p" by (rule evolves_same [OF ev p])
  qed
  with evolves_length [OF ev] show ?thesis by simp
qed

theorem Fact_call_failure_restores_witness:
  "deref family 2 = Inr (Fact [0, 1]) \<and>
   call (Suc (Suc 0)) family 2 [3, 4] = Inr (False, family[3 := Atom ''string'' ''alice'' False]) \<and>
   is_unified (family[3 := Atom ''string'' ''alice'' False] ! 3) = is_unified (family ! 3) \<and>
   family[3 := Atom ''string'' ''alice'' False] ! 4 = family ! 4"
proof -
  have d: "deref family 2 = Inr (Fact [0, 1])"
    by (simp add: family_def deref_def)
  have c: "call (Suc (Suc 0)) family 2 [3, 4] = Inr (False, family[3 := Atom ''string'' ''alice'' False])"
    by (simp add: family_def deref_def Fact_call_def ununified_positions_def is_unified_at_def
      at_index_def Atom_call_def set_unified_at_def)
  have l: "(3::nat) < length family" "(4::nat) < length family" "is_unified (family ! 4)"
    by (simp_all add: family_def)
  from Fact_call_failure_restores [OF d c] l d c show ?thesis by blast
qed

text \<open>
  C1 as stated fails. The fact parent(alice, bob) against an unbound Atom holding the
  empty string and an Atom bound to zoe: position 0 writes alice into the unbound Atom,
  position 1 fails, and the reset leaves alice in place.
\<close>

theorem Fact_call_failure_value_counterexample:
  "call (Suc (Suc 0))
     [Atom ''string'' ''alice'' True, Atom ''string'' ''bob'' True, Fact [0, 1],
      Atom ''string'' '''' False, Atom ''string'' ''zoe'' True] 2 [3, 4] =
   Inr (False,
     [Atom ''string'' ''alice'' True, Atom ''string'' ''bob'' True, Fact [0, 1],
      Atom ''string'' ''alice'' False, Atom ''string'' ''zoe'' True]) \<and>
   m_value ([Atom ''string'' ''alice'' True, Atom ''string'' ''bob'' True, Fact [0, 1],
      Atom ''string'' ''alice'' False, Atom ''string'' ''zoe'' True] ! 3) \<noteq>
   m_value ([Atom ''string'' ''alice'' True, Atom ''string'' ''bob'' True, Fact [0, 1],
      Atom ''string'' '''' False, Atom ''string'' ''zoe'' True] ! 3)"
  by (simp add: deref_def Fact_call_def ununified_positions_def is_unified_at_def
      at_index_def Atom_call_def set_unified_at_def)

text \<open>
  C4. A Fact or a Rule called with an argument vector whose length is not its arity
  returns false at once, without a nested call, and the store is the one it was.
\<close>

theorem arity_mismatch_fails:
  "deref h self = Inr obj \<Longrightarrow> typeid obj = FactT \<or> typeid obj = RuleT \<Longrightarrow>
   length args \<noteq> arity obj \<Longrightarrow> call (Suc n) h self args = Inr (False, h)"
  by (cases obj) (simp_all add: Fact_call_def Rule_call_def)

theorem arity_mismatch_fails_witness:
  "deref family 2 = Inr (Fact [0, 1]) \<and> typeid (Fact [0, 1] :: (string, string) expression) = FactT \<and>
   length [3::nat] \<noteq> arity (Fact [0, 1] :: (string, string) expression) \<and>
   call (Suc 0) family 2 [3] = Inr (False, family)"
proof -
  have d: "deref family 2 = Inr (Fact [0, 1])"
    by (simp add: family_def deref_def)
  have t: "typeid (Fact [0, 1] :: (string, string) expression) = FactT \<or>
           typeid (Fact [0, 1] :: (string, string) expression) = RuleT"
    by simp
  have l: "length [3::nat] \<noteq> arity (Fact [0, 1] :: (string, string) expression)"
    by simp
  from arity_mismatch_fails [OF d t l, of 0] d l show ?thesis by simp
qed

lemma add_fact_parent:
  "add_fact dflt name [Value T a, Value T b] (h, db) =
     (length h + 2,
      h @ [Atom T a True, Atom T b True, Fact [length h, length h + 1]],
      db\<lparr>m_atoms := m_atoms db @ [length h, length h + 1],
         m_expressions := (m_expressions db)(name \<mapsto>
            (case m_expressions db name of None \<Rightarrow> [] | Some l \<Rightarrow> l) @ [length h + 2])\<rparr>)"
  by (simp add: add_fact_def new_def map_index_def split: option.splits)

text \<open>
  C3. After \<^verbatim>\<open>add_fact("parent", "alice", "bob")\<close> on any Database in any store, the
  new Fact is the last entry registered under parent, and unifying it against an Atom
  bound to alice and an unbound Atom of the same value type returns true and leaves the
  second argument bound to bob; nothing else in the store changes.
\<close>

theorem add_fact_then_unify:
  fixes h :: "('t, string) heap"
  assumes add: "add_fact dflt ''parent'' [Value T ''alice'', Value T ''bob''] (h, db) = (f, h', db')"
    and x: "deref h' x = Inr (Atom T ''alice'' True)"
    and y: "deref h' y = Inr (Atom T v False)"
  shows "stored db' ''parent'' = stored db ''parent'' @ [f] \<and>
         call (Suc (Suc n)) h' f [x, y] = Inr (True, h'[y := Atom T ''bob'' True]) \<and>
         deref (h'[y := Atom T ''bob'' True]) y = Inr (Atom T ''bob'' True)"
proof -
  let ?A = "Atom T ''alice'' True :: ('t, string) expression"
  let ?B = "Atom T ''bob'' True :: ('t, string) expression"
  from add have f: "f = length h + 2"
    and h': "h' = h @ [?A, ?B, Fact [length h, length h + 1]]"
    and db': "m_expressions db' ''parent'' =
       Some ((case m_expressions db ''parent'' of None \<Rightarrow> [] | Some l \<Rightarrow> l) @ [length h + 2])"
    by (auto simp: add_fact_parent)
  have df: "deref h' f = Inr (Fact [length h, length h + 1])"
    by (simp add: deref_def f h' nth_append)
  have d0: "deref h' (length h) = Inr ?A"
    by (simp add: deref_def h' nth_append)
  have d1: "deref h' (length h + 1) = Inr ?B"
    by (simp add: deref_def h' nth_append)
  from y have yl: "y < length h'" by (simp add: deref_def split: if_splits)
  have un: "ununified_positions h' [x, y] = Inr [1]"
    using x y by (simp add: ununified_positions_def is_unified_at_def)
  have c0: "call (Suc n) h' (length h) [x] = Inr (True, h')"
    using d0 x by (simp add: Atom_call_def at_index_def)
  have c1: "call (Suc n) h' (length h + 1) [y] = Inr (True, h'[y := ?B])"
    using d1 y by (simp add: Atom_call_def at_index_def)
  have "call (Suc (Suc n)) h' f [x, y] = Inr (True, h'[y := ?B])"
    using df un c0 c1 by (simp add: Fact_call_def at_index_def)
  moreover have "deref (h'[y := ?B]) y = Inr ?B"
    using yl by (simp add: deref_def)
  moreover have "stored db' ''parent'' = stored db ''parent'' @ [f]"
    using db' f by (simp add: stored_def)
  ultimately show ?thesis by simp
qed

theorem add_fact_then_unify_witness:
  "add_fact default_initialised ''parent'' [Value ''string'' ''alice'', Value ''string'' ''bob'']
     ([Atom ''string'' ''alice'' True, Atom ''string'' '''' False], empty_database) =
     (4, [Atom ''string'' ''alice'' True, Atom ''string'' '''' False,
          Atom ''string'' ''alice'' True, Atom ''string'' ''bob'' True, Fact [2, 3]],
      \<lparr>m_expressions = [''parent'' \<mapsto> [4]], m_atoms = [2, 3]\<rparr>) \<and>
   call (Suc (Suc 0))
     [Atom ''string'' ''alice'' True, Atom ''string'' '''' False,
      Atom ''string'' ''alice'' True, Atom ''string'' ''bob'' True, Fact [2, 3]] 4 [0, 1] =
   Inr (True, [Atom ''string'' ''alice'' True, Atom ''string'' ''bob'' True,
      Atom ''string'' ''alice'' True, Atom ''string'' ''bob'' True, Fact [2, 3]])"
proof -
  let ?h = "[Atom ''string'' ''alice'' True, Atom ''string'' '''' False,
          Atom ''string'' ''alice'' True, Atom ''string'' ''bob'' True, Fact [2, 3]]"
  have add: "add_fact default_initialised ''parent'' [Value ''string'' ''alice'', Value ''string'' ''bob'']
     ([Atom ''string'' ''alice'' True, Atom ''string'' '''' False], empty_database) =
     (4, ?h, \<lparr>m_expressions = [''parent'' \<mapsto> [4]], m_atoms = [2, 3]\<rparr>)"
    by (simp add: add_fact_def new_def map_index_def empty_database_def eval_nat_numeral)
  have x: "deref ?h 0 = Inr (Atom ''string'' ''alice'' True)" by (simp add: deref_def)
  have y: "deref ?h 1 = Inr (Atom ''string'' '''' False)" by (simp add: deref_def)
  from add_fact_then_unify [OF add x y, of 0] add show ?thesis by simp
qed

section \<open>Rule resolution\<close>

text \<open>
  C2. \<^verbatim>\<open>Rule::operator()\<close> returns false for every Rule, whatever its arguments and
  body predicates are and whatever the argument vector is, and leaves the store alone.
\<close>

theorem Rule_call_fails:
  "deref h r = Inr (Rule margs preds) \<Longrightarrow> call (Suc n) h r args = Inr (False, h)"
  by (simp add: Rule_call_def)

theorem Rule_call_fails_witness:
  "deref [Atom ''string'' ''x'' False, Rule [0] [0, 1]] 1 = Inr (Rule [0] [0, 1]) \<and>
   call (Suc 0) [Atom ''string'' ''x'' False, Rule [0] [0, 1]] 1 [0] =
     Inr (False, [Atom ''string'' ''x'' False, Rule [0] [0, 1]])"
proof -
  have d: "deref [Atom ''string'' ''x'' False, Rule [0] [0, 1]] 1 = Inr (Rule [0] [0, 1])"
    by (simp add: deref_def)
  show ?thesis using d Rule_call_fails [OF d, of 0 "[0]"] by simp
qed

section \<open>Atom unification\<close>

text \<open>
  C5. A bound Atom part called with one bound Atom of its own type returns whether the
  two values are equal, and in both cases the store, so the argument's value and status,
  is unchanged.
\<close>

theorem Atom_call_bound:
  "deref h p = Inr (Atom T vp True) \<Longrightarrow> deref h a = Inr (Atom T va True) \<Longrightarrow>
   call (Suc n) h p [a] = Inr (va = vp, h)"
  by (simp add: Atom_call_def at_index_def)

theorem Atom_call_bound_witness:
  "deref family 0 = Inr (Atom ''string'' ''alice'' True) \<and>
   deref family 4 = Inr (Atom ''string'' ''zoe'' True) \<and>
   call (Suc 0) family 0 [4] = Inr (False, family)"
proof -
  have p: "deref family 0 = Inr (Atom ''string'' ''alice'' True)"
    by (simp add: family_def deref_def)
  have a: "deref family 4 = Inr (Atom ''string'' ''zoe'' True)"
    by (simp add: family_def deref_def)
  from Atom_call_bound [OF p a, of 0] p a show ?thesis by simp
qed

text \<open>
  C6. An Atom<T> called with one argument that points to an object of any other dynamic
  type (an Atom of another value type, a Fact, a Rule) returns false as an ordinary
  result, and the store is unchanged.
\<close>

theorem Atom_call_type_mismatch:
  "deref h p = Inr (Atom T v u) \<Longrightarrow> deref h a = Inr obj \<Longrightarrow> typeid obj \<noteq> AtomT T \<Longrightarrow>
   call (Suc n) h p [a] = Inr (False, h)"
  by (simp add: Atom_call_def at_index_def)

theorem Atom_call_type_mismatch_witness:
  "deref family 0 = Inr (Atom ''string'' ''alice'' True) \<and>
   deref family 5 = Inr (Atom ''int'' ''7'' True) \<and>
   typeid (Atom ''int'' ''7'' True) \<noteq> AtomT ''string'' \<and>
   call (Suc 0) family 0 [5] = Inr (False, family)"
proof -
  have p: "deref family 0 = Inr (Atom ''string'' ''alice'' True)"
    by (simp add: family_def deref_def)
  have a: "deref family 5 = Inr (Atom ''int'' ''7'' True)"
    by (simp add: family_def deref_def)
  have t: "typeid (Atom ''int'' ''7'' True) \<noteq> AtomT ''string''"
    by simp
  from Atom_call_type_mismatch [OF p a t, of 0] p a t show ?thesis by simp
qed

text \<open>
  C9. Called with an empty vector, \<^verbatim>\<open>Atom::operator()\<close> indexes \<^verbatim>\<open>args[0]\<close>
  before it tests the size: the call is out of range, it does not return false.
\<close>

theorem Atom_call_empty_args: "Atom_call T v h [] = Inl OutOfRange"
  by (simp add: Atom_call_def at_index_def)

section \<open>Facts and Rules have no unification status of their own\<close>

text \<open>
  C10. For an object that is a Fact or a Rule, \<^verbatim>\<open>is_unified()\<close> is true and
  \<^verbatim>\<open>set_unified(val)\<close> changes neither the object nor the store; so after
  \<^verbatim>\<open>restore_ununified\<close>, with any positions and argument vector, that object is as it
  was, and the only objects that differ are Atoms, in their unified flag, now false.
\<close>

theorem Fact_Rule_status_fixed:
  fixes h :: "('t, 'v) heap"
  assumes q: "deref h q = Inr obj"
    and t: "typeid obj = FactT \<or> typeid obj = RuleT"
    and rs: "restore_ununified positions args h = Inr h'"
  shows "is_unified obj \<and> set_unified val obj = obj \<and>
         is_unified_at h q = Inr True \<and> set_unified_at h q val = Inr h \<and>
         deref h' q = Inr obj \<and>
         (\<forall>p<length h. case h ! p of
                          Atom T v u \<Rightarrow> h' ! p = Atom T v u \<or> h' ! p = Atom T v False
                        | other \<Rightarrow> h' ! p = other)"
proof -
  from t have o: "is_unified obj" "\<And>val. set_unified val obj = obj"
    by (cases obj; simp)+
  from q have ql: "q < length h" and qo: "h ! q = obj"
    by (simp_all add: deref_def split: if_splits)
  from qo have "h[q := obj] = h" by (simp add: list_update_same_conv [symmetric] ql)
  with q o have a: "is_unified_at h q = Inr True" "set_unified_at h q val = Inr h"
    by (simp_all add: is_unified_at_def set_unified_at_def)
  from restore_ununified_sound [OF rs] have len: "length h' = length h"
    and val: "\<And>p. p < length h \<Longrightarrow> h' ! p =
       (if p \<in> (\<lambda>pos. args ! pos) ` set positions then set_unified False (h ! p) else h ! p)"
    by simp_all
  from val [OF ql] qo o(2) have "h' ! q = obj" by simp
  with ql len have d: "deref h' q = Inr obj" by (simp add: deref_def)
  have "case h ! p of Atom T v u \<Rightarrow> h' ! p = Atom T v u \<or> h' ! p = Atom T v False
        | other \<Rightarrow> h' ! p = other" if p: "p < length h" for p
    using val [OF p] by (cases "h ! p") (simp_all split: if_splits)
  with o a d show ?thesis by simp
qed

theorem Fact_Rule_status_fixed_witness:
  "deref family 2 = Inr (Fact [0, 1]) \<and>
   restore_ununified [0, 1] [2, 4] family = Inr (family[4 := Atom ''string'' ''zoe'' False]) \<and>
   is_unified (Fact [0, 1] :: (string, string) expression) \<and>
   set_unified_at family 2 False = Inr family \<and>
   deref (family[4 := Atom ''string'' ''zoe'' False]) 2 = Inr (Fact [0, 1])"
proof -
  have q: "deref family 2 = Inr (Fact [0, 1])"
    by (simp add: family_def deref_def)
  have t: "typeid (Fact [0, 1] :: (string, string) expression) = FactT \<or>
           typeid (Fact [0, 1] :: (string, string) expression) = RuleT"
    by simp
  have rs: "restore_ununified [0, 1] [2, 4] family = Inr (family[4 := Atom ''string'' ''zoe'' False])"
    by (simp add: family_def at_index_def set_unified_at_def deref_def)
  from Fact_Rule_status_fixed [OF q t rs, of False] q rs show ?thesis by simp
qed

section \<open>What a registration does\<close>

lemma find_if_arity_sound:
  "\<forall>e\<in>set l. e < length h \<Longrightarrow>
   \<exists>r. find_if_arity h n l = Inr r \<and>
       (case r of
          None \<Rightarrow> (\<forall>e\<in>set l. arity (h ! e) \<noteq> n)
        | Some e \<Rightarrow> (\<exists>i<length l. l ! i = e \<and> arity (h ! e) = n \<and> (\<forall>j<i. arity (h ! (l ! j)) \<noteq> n)))"
proof (induction l)
  case Nil
  then show ?case by simp
next
  case (Cons x l)
  then have x: "deref h x = Inr (h ! x)" by (simp add: deref_def)
  show ?case
  proof (cases "arity (h ! x) = n")
    case True
    then have "find_if_arity h n (x # l) = Inr (Some x)" using x by simp
    moreover have "\<exists>i<length (x # l). (x # l) ! i = x \<and> arity (h ! x) = n \<and>
                     (\<forall>j<i. arity (h ! ((x # l) ! j)) \<noteq> n)"
      using True by (intro exI [of _ 0]) simp
    ultimately show ?thesis by simp
  next
    case False
    from Cons obtain r where r: "find_if_arity h n l = Inr r"
      and c: "case r of
          None \<Rightarrow> (\<forall>e\<in>set l. arity (h ! e) \<noteq> n)
        | Some e \<Rightarrow> (\<exists>i<length l. l ! i = e \<and> arity (h ! e) = n \<and> (\<forall>j<i. arity (h ! (l ! j)) \<noteq> n))"
      by auto
    from False x r have f: "find_if_arity h n (x # l) = Inr r" by simp
    show ?thesis
    proof (cases r)
      case None
      with c False f show ?thesis by simp
    next
      case (Some e)
      with c obtain i where i: "i < length l" "l ! i = e" "arity (h ! e) = n"
        "\<forall>j<i. arity (h ! (l ! j)) \<noteq> n" by auto
      have "\<forall>j<Suc i. arity (h ! ((x # l) ! j)) \<noteq> n"
      proof (intro allI impI)
        fix j assume "j < Suc i"
        then show "arity (h ! ((x # l) ! j)) \<noteq> n"
          using False i(4) by (cases j) simp_all
      qed
      with i have "\<exists>i<length (x # l). (x # l) ! i = e \<and> arity (h ! e) = n \<and>
                     (\<forall>j<i. arity (h ! ((x # l) ! j)) \<noteq> n)"
        by (intro exI [of _ "Suc i"]) simp
      with f Some show ?thesis by simp
    qed
  qed
qed

lemma get_eq:
  "get h db name n =
     (case m_expressions db name of
        None \<Rightarrow> Inr (None, db)
      | Some l \<Rightarrow> (case find_if_arity h n l of Inl e \<Rightarrow> Inl e | Inr r \<Rightarrow> Inr (r, db)))"
  by (simp add: get_def map_index_def split: option.splits sum.splits)

lemma add_atom_step:
  "\<exists>obj. is_Atom obj \<and> add_atom dflt x (h, db, sf) =
     (h @ [obj], db\<lparr>m_atoms := m_atoms db @ [length h]\<rparr>, sf @ [length h])"
  by (cases x) (simp_all add: new_def)

lemma add_arg_step:
  "(\<exists>expr. x = Expr expr \<and> add_arg dflt x (h, db, sf) = (h, db, sf @ [expr])) \<or>
   (\<exists>obj U. x = Var U \<and> is_Atom obj \<and> add_arg dflt x (h, db, sf) =
     (h @ [obj], db\<lparr>m_atoms := m_atoms db @ [length h]\<rparr>, sf @ [length h]))"
  by (cases x) (simp_all add: new_def)

lemma fold_add_atom:
  "fold (add_atom dflt) atoms (h, db, sf) = (h1, db1, sf1) \<Longrightarrow>
     (\<exists>new. h1 = h @ new \<and> (\<forall>obj\<in>set new. is_Atom obj)) \<and>
     m_expressions db1 = m_expressions db \<and>
     m_atoms db1 = m_atoms db @ [length h..<length h1] \<and>
     sf1 = sf @ [length h..<length h1]"
proof (induction atoms arbitrary: h db sf)
  case Nil
  then show ?case by simp
next
  case (Cons x atoms)
  from add_atom_step [of dflt x h db sf] obtain obj where obj: "is_Atom obj"
    and st: "add_atom dflt x (h, db, sf) =
       (h @ [obj], db\<lparr>m_atoms := m_atoms db @ [length h]\<rparr>, sf @ [length h])"
    by blast
  with Cons.prems have
    "fold (add_atom dflt) atoms (h @ [obj], db\<lparr>m_atoms := m_atoms db @ [length h]\<rparr>, sf @ [length h]) =
       (h1, db1, sf1)" by simp
  from Cons.IH [OF this] obtain new where new: "h1 = (h @ [obj]) @ new" "\<forall>ob\<in>set new. is_Atom ob"
    and m: "m_expressions db1 = m_expressions db"
    and a: "m_atoms db1 = (m_atoms db @ [length h]) @ [length (h @ [obj])..<length h1]"
    and s: "sf1 = (sf @ [length h]) @ [length (h @ [obj])..<length h1]"
    by auto
  from new have len: "length h < length h1" by simp
  then have u: "[length h..<length h1] = length h # [Suc (length h)..<length h1]"
    by (simp add: upt_conv_Cons)
  from new obj have "h1 = h @ (obj # new) \<and> (\<forall>ob\<in>set (obj # new). is_Atom ob)" by simp
  then have "\<exists>new. h1 = h @ new \<and> (\<forall>obj\<in>set new. is_Atom obj)" by blast
  with m a s u show ?case by simp
qed

lemma fold_add_arg:
  "fold (add_arg dflt) args (h, db, sf) = (h1, db1, sf1) \<Longrightarrow>
     (\<exists>new. h1 = h @ new \<and> (\<forall>obj\<in>set new. is_Atom obj)) \<and>
     m_expressions db1 = m_expressions db \<and>
     m_atoms db1 = m_atoms db @ [length h..<length h1] \<and>
     set sf1 \<subseteq> set sf \<union> {length h..<length h1} \<union> set (pointers args)"
proof (induction args arbitrary: h db sf)
  case Nil
  then show ?case by simp
next
  case (Cons x args)
  from add_arg_step [of x dflt h db sf] show ?case
  proof (elim disjE exE conjE)
    fix expr assume x: "x = Expr expr" and st: "add_arg dflt x (h, db, sf) = (h, db, sf @ [expr])"
    with Cons.prems have "fold (add_arg dflt) args (h, db, sf @ [expr]) = (h1, db1, sf1)" by simp
    from Cons.IH [OF this] x show ?thesis by auto
  next
    fix obj U assume x: "x = Var U" and obj: "is_Atom obj"
      and st: "add_arg dflt x (h, db, sf) =
         (h @ [obj], db\<lparr>m_atoms := m_atoms db @ [length h]\<rparr>, sf @ [length h])"
    with Cons.prems have
      "fold (add_arg dflt) args (h @ [obj], db\<lparr>m_atoms := m_atoms db @ [length h]\<rparr>, sf @ [length h]) =
         (h1, db1, sf1)" by simp
    from Cons.IH [OF this] obtain new where new: "h1 = (h @ [obj]) @ new" "\<forall>ob\<in>set new. is_Atom ob"
      and m: "m_expressions db1 = m_expressions db"
      and a: "m_atoms db1 = (m_atoms db @ [length h]) @ [length (h @ [obj])..<length h1]"
      and s: "set sf1 \<subseteq> set (sf @ [length h]) \<union> {length (h @ [obj])..<length h1} \<union> set (pointers args)"
      by auto
    from new have len: "length h < length h1" by simp
    then have u: "[length h..<length h1] = length h # [Suc (length h)..<length h1]"
      by (simp add: upt_conv_Cons)
    from len have u2: "{length h..<length h1} = insert (length h) {Suc (length h)..<length h1}"
      by auto
    from new obj have "h1 = h @ (obj # new) \<and> (\<forall>ob\<in>set (obj # new). is_Atom ob)" by simp
    then have "\<exists>new. h1 = h @ new \<and> (\<forall>obj\<in>set new. is_Atom obj)" by blast
    moreover from s u2 x have "set sf1 \<subseteq> set sf \<union> {length h..<length h1} \<union> set (pointers (x # args))"
      by auto
    ultimately show ?thesis using m a u by simp
  qed
qed

lemma push_back_eq:
  "(case map_index m name of (m', l) \<Rightarrow> m'(name \<mapsto> l @ [f])) =
     m(name \<mapsto> (case m name of None \<Rightarrow> [] | Some l \<Rightarrow> l) @ [f])"
  by (simp add: map_index_def split: option.splits)

lemma add_fact_result:
  assumes "add_fact dflt name atoms (h, db) = (f, h2, db2)"
  shows "\<exists>new. h2 = h @ new @ [Fact [length h..<f]] \<and> (\<forall>ob\<in>set new. is_Atom ob) \<and>
           f = length h + length new \<and>
           m_atoms db2 = m_atoms db @ [length h..<f] \<and>
           m_expressions db2 = (m_expressions db)(name \<mapsto> stored db name @ [f])"
proof -
  obtain h1 db1 sf where fo: "fold (add_atom dflt) atoms (h, db, []) = (h1, db1, sf)"
    by (cases "fold (add_atom dflt) atoms (h, db, [])") auto
  from fold_add_atom [OF fo] obtain new where new: "h1 = h @ new" "\<forall>ob\<in>set new. is_Atom ob"
    and m: "m_expressions db1 = m_expressions db"
    and a: "m_atoms db1 = m_atoms db @ [length h..<length h1]"
    and s: "sf = [length h..<length h1]"
    by auto
  from assms fo have f: "f = length h1" and h2: "h2 = h1 @ [Fact sf]"
    and db2: "db2 = db1\<lparr>m_expressions :=
        (case map_index (m_expressions db1) name of (m', l) \<Rightarrow> m'(name \<mapsto> l @ [f]))\<rparr>"
    by (auto simp: add_fact_def new_def split: prod.splits)
  from db2 m have "m_expressions db2 = (m_expressions db)(name \<mapsto> stored db name @ [f])"
    by (simp add: push_back_eq stored_def)
  moreover from db2 a f have "m_atoms db2 = m_atoms db @ [length h..<f]" by simp
  ultimately show ?thesis using new f h2 s by auto
qed

lemma add_rule_result:
  assumes "add_rule dflt name args (h, db) = (f, h2, db2)"
  shows "\<exists>new sf. h2 = h @ new @ [Rule sf []] \<and> (\<forall>ob\<in>set new. is_Atom ob) \<and>
           f = length h + length new \<and>
           set sf \<subseteq> {length h..<f} \<union> set (pointers args) \<and>
           m_atoms db2 = m_atoms db @ [length h..<f] \<and>
           m_expressions db2 = (m_expressions db)(name \<mapsto> stored db name @ [f])"
proof -
  obtain h1 db1 sf where fo: "fold (add_arg dflt) args (h, db, []) = (h1, db1, sf)"
    by (cases "fold (add_arg dflt) args (h, db, [])") auto
  from fold_add_arg [OF fo] obtain new where new: "h1 = h @ new" "\<forall>ob\<in>set new. is_Atom ob"
    and m: "m_expressions db1 = m_expressions db"
    and a: "m_atoms db1 = m_atoms db @ [length h..<length h1]"
    and s: "set sf \<subseteq> {length h..<length h1} \<union> set (pointers args)"
    by auto
  from assms fo have f: "f = length h1" and h2: "h2 = h1 @ [Rule sf []]"
    and db2: "db2 = db1\<lparr>m_expressions :=
        (case map_index (m_expressions db1) name of (m', l) \<Rightarrow> m'(name \<mapsto> l @ [f]))\<rparr>"
    by (auto simp: add_rule_def new_def split: prod.splits)
  from db2 m have "m_expressions db2 = (m_expressions db)(name \<mapsto> stored db name @ [f])"
    by (simp add: push_back_eq stored_def)
  moreover from db2 a f have "m_atoms db2 = m_atoms db @ [length h..<f]" by simp
  ultimately show ?thesis using new f h2 s by auto
qed

text \<open>Both registrations have the same effect on the invariant.\<close>

lemma owned_register:
  assumes ow: "owned X h db"
    and h2: "h2 = h @ objs @ [obj]" and objs: "\<forall>ob\<in>set objs. is_Atom ob"
    and f: "f = length h + length objs"
    and obj: "\<not> is_Atom obj" "set (children obj) \<subseteq> {length h..<f} \<union> Y"
    and a: "m_atoms db2 = m_atoms db @ [length h..<f]"
    and m: "m_expressions db2 = (m_expressions db)(name \<mapsto> stored db name @ [f])"
  shows "owned (X \<union> Y) h2 db2"
proof -
  have old: "h2 ! p = h ! p" if "p < length h" for p
    using that by (simp add: h2 nth_append)
  have mid: "is_Atom (h2 ! p)" if "length h \<le> p" "p < f" for p
  proof -
    from that f have pl: "p - length h < length objs" by simp
    with objs have "is_Atom (objs ! (p - length h))" by simp
    with that pl show ?thesis by (simp add: h2 nth_append)
  qed
  have top: "h2 ! f = obj" by (simp add: h2 f nth_append)
  have len: "length h2 = Suc f" by (simp add: h2 f)
  have pool: "a < length h2 \<and> is_Atom (h2 ! a)" if "a \<in> set (m_atoms db2)" for a
  proof (cases "a \<in> set (m_atoms db)")
    case True
    with ow have "a < length h" "is_Atom (h ! a)" by (simp_all add: owned_def)
    with old len f show ?thesis by simp
  next
    case False
    with that a have "length h \<le> a" "a < f" by simp_all
    with mid len show ?thesis by simp
  qed
  have st: "stored db2 name' = (if name' = name then stored db name @ [f] else stored db name')"
    for name'
    by (simp add: stored_def m)
  have reg: "e < length h2 \<and> \<not> is_Atom (h2 ! e) \<and>
             set (children (h2 ! e)) \<subseteq> set (m_atoms db2) \<union> (X \<union> Y)"
    if e: "e \<in> set (stored db2 name')" for name' e
  proof (cases "e \<in> set (stored db name')")
    case True
    with ow have "e < length h" "\<not> is_Atom (h ! e)"
      "set (children (h ! e)) \<subseteq> set (m_atoms db) \<union> X"
      by (simp_all add: owned_def)
    with old len f a show ?thesis by auto
  next
    case False
    with e st have "e = f" by (auto split: if_splits)
    with top len obj a show ?thesis by auto
  qed
  from pool reg show ?thesis by (simp add: owned_def)
qed

lemma owned_exec:
  assumes ow: "owned X h db" and ex: "exec dflt cmd (h, db) = (h2, db2)"
  shows "owned (X \<union> set (supplied cmd)) h2 db2"
proof (cases cmd)
  case (AddFact name atoms)
  with ex obtain f where "add_fact dflt name atoms (h, db) = (f, h2, db2)"
    by (cases "add_fact dflt name atoms (h, db)") simp
  from add_fact_result [OF this] obtain new where r: "h2 = h @ new @ [Fact [length h..<f]]"
    "\<forall>ob\<in>set new. is_Atom ob" "f = length h + length new"
    "m_atoms db2 = m_atoms db @ [length h..<f]"
    "m_expressions db2 = (m_expressions db)(name \<mapsto> stored db name @ [f])"
    by blast
  have "owned (X \<union> {}) h2 db2"
    by (rule owned_register [OF ow r(1) r(2) r(3) _ _ r(4) r(5)]) simp_all
  with AddFact show ?thesis by simp
next
  case (AddRule name args)
  with ex obtain f where "add_rule dflt name args (h, db) = (f, h2, db2)"
    by (cases "add_rule dflt name args (h, db)") simp
  from add_rule_result [OF this] obtain new sf where r: "h2 = h @ new @ [Rule sf []]"
    "\<forall>ob\<in>set new. is_Atom ob" "f = length h + length new"
    "set sf \<subseteq> {length h..<f} \<union> set (pointers args)"
    "m_atoms db2 = m_atoms db @ [length h..<f]"
    "m_expressions db2 = (m_expressions db)(name \<mapsto> stored db name @ [f])"
    by blast
  have "owned (X \<union> set (pointers args)) h2 db2"
    by (rule owned_register [OF ow r(1) r(2) r(3) _ _ r(5) r(6)]) (simp_all add: r(4))
  with AddRule show ?thesis by simp
qed

lemma owned_run:
  "owned X h db \<Longrightarrow> run dflt cmds (h, db) = (h2, db2) \<Longrightarrow>
   owned (X \<union> set (concat (map supplied cmds))) h2 db2"
proof (induction cmds arbitrary: X h db)
  case Nil
  then show ?case by (simp add: run_def)
next
  case (Cons cmd cmds)
  obtain h1 db1 where e: "exec dflt cmd (h, db) = (h1, db1)"
    by (cases "exec dflt cmd (h, db)") auto
  with Cons.prems(2) have r: "run dflt cmds (h1, db1) = (h2, db2)" by (simp add: run_def)
  from Cons.IH [OF owned_exec [OF Cons.prems(1) e] r] show ?case
    by (simp add: Un_assoc)
qed

lemma owned_empty: "owned {} h empty_database"
  by (simp add: owned_def empty_database_def stored_def)

lemma owned_reaches:
  assumes ow: "owned X h db" and r: "reaches h e a" and e: "e \<in> set (stored db name)"
  shows "a = e \<or> a \<in> set (m_atoms db) \<or> (\<exists>x\<in>X. reaches h x a)"
  using r e
proof (induction rule: reaches.induct)
  case (here a)
  then show ?case by simp
next
  case (step a b obj c)
  from step.hyps(2) have b: "b < length h" "h ! b = obj"
    by (simp_all add: deref_def split: if_splits)
  from step.IH [OF step.prems]
  consider "b = a" | "b \<in> set (m_atoms db)" | x where "x \<in> X" "reaches h x b"
    by blast
  then show ?case
  proof cases
    case 1
    with ow step.prems b have "set (children obj) \<subseteq> set (m_atoms db) \<union> X"
      by (auto simp: owned_def)
    with step.hyps(3) have "c \<in> set (m_atoms db) \<or> c \<in> X" by blast
    then show ?thesis using reaches.here [of h c] by blast
  next
    case 2
    with ow b have "is_Atom obj" by (auto simp: owned_def)
    with step.hyps(3) show ?thesis by (cases obj) simp_all
  next
    case 3
    from reaches.step [OF 3(2) step.hyps(2) step.hyps(3)] 3(1) show ?thesis by blast
  qed
qed

lemma registry_eval:
  "fst registry =
     [Atom ''string'' ''alice'' True, Fact [0],
      Atom ''string'' ''alice'' True, Atom ''string'' ''bob'' True, Fact [2, 3],
      Atom ''string'' '''' False, Atom ''string'' '''' False, Rule [5, 6] []]"
  "stored (snd registry) ''parent'' = [1, 4, 7]"
  "m_atoms (snd registry) = [0, 2, 3, 5, 6]"
  "m_expressions (snd registry) ''parent'' = Some [1, 4, 7]"
  by (simp_all add: registry_def run_def add_fact_def add_rule_def new_def map_index_def
      empty_database_def stored_def default_initialised_def)

section \<open>Database::get\<close>

text \<open>
  C7. When the pointers registered under \<open>name\<close> point into the store, \<^verbatim>\<open>get\<close>
  returns, with the Database unchanged (it has no access to change the store): null if
  the name was never registered; null if no entry registered under the name has the
  arity asked for; and otherwise the entry at the least index of the name's vector whose
  arity is the one asked for. \<^verbatim>\<open>add_fact\<close> and \<^verbatim>\<open>add_rule\<close> append to the end of
  that vector, so the least index is the earliest registration.
\<close>

theorem get_first_match:
  assumes valid: "\<forall>e\<in>set (stored db name). e < length h"
  shows "(\<exists>r. get h db name n = Inr (r, db) \<and>
            (m_expressions db name = None \<longrightarrow> r = None) \<and>
            (case r of
               None \<Rightarrow> (\<forall>e\<in>set (stored db name). arity (h ! e) \<noteq> n)
             | Some e \<Rightarrow> (\<exists>i<length (stored db name). stored db name ! i = e \<and> arity (h ! e) = n \<and>
                            (\<forall>j<i. arity (h ! (stored db name ! j)) \<noteq> n)))) \<and>
         (add_fact dflt name atoms (h, db) = (f, h2, db2) \<longrightarrow>
            stored db2 name = stored db name @ [f]) \<and>
         (add_rule dflt name args (h, db) = (f', h3, db3) \<longrightarrow>
            stored db3 name = stored db name @ [f'])"
proof (intro conjI impI)
  show "\<exists>r. get h db name n = Inr (r, db) \<and>
            (m_expressions db name = None \<longrightarrow> r = None) \<and>
            (case r of
               None \<Rightarrow> (\<forall>e\<in>set (stored db name). arity (h ! e) \<noteq> n)
             | Some e \<Rightarrow> (\<exists>i<length (stored db name). stored db name ! i = e \<and> arity (h ! e) = n \<and>
                            (\<forall>j<i. arity (h ! (stored db name ! j)) \<noteq> n)))"
  proof (cases "m_expressions db name")
    case None
    then show ?thesis by (simp add: get_eq stored_def)
  next
    case (Some l)
    then have l: "stored db name = l" by (simp add: stored_def)
    with valid have "\<forall>e\<in>set l. e < length h" by simp
    from find_if_arity_sound [OF this, of n] obtain r where fr: "find_if_arity h n l = Inr r"
      and c: "case r of
            None \<Rightarrow> (\<forall>e\<in>set l. arity (h ! e) \<noteq> n)
          | Some e \<Rightarrow> (\<exists>i<length l. l ! i = e \<and> arity (h ! e) = n \<and> (\<forall>j<i. arity (h ! (l ! j)) \<noteq> n))"
      by blast
    show ?thesis unfolding l using Some fr c by (simp add: get_eq)
  qed
next
  assume "add_fact dflt name atoms (h, db) = (f, h2, db2)"
  from add_fact_result [OF this] show "stored db2 name = stored db name @ [f]"
    by (auto simp: stored_def)
next
  assume "add_rule dflt name args (h, db) = (f', h3, db3)"
  from add_rule_result [OF this] show "stored db3 name = stored db name @ [f']"
    by (auto simp: stored_def)
qed

theorem get_first_match_witness:
  "stored (snd registry) ''parent'' = [1, 4, 7] \<and>
   get (fst registry) (snd registry) ''parent'' 2 = Inr (Some 4, snd registry)"
proof -
  have v: "\<forall>e\<in>set (stored (snd registry) ''parent''). e < length (fst registry)"
    by (simp add: registry_eval)
  from get_first_match [OF v, of 2] obtain r
    where g: "get (fst registry) (snd registry) ''parent'' 2 = Inr (r, snd registry)"
    by blast
  have "get (fst registry) (snd registry) ''parent'' 2 = Inr (Some 4, snd registry)"
    by (simp add: get_eq registry_eval deref_def)
  with g show ?thesis by (simp add: registry_eval)
qed

section \<open>The pool of Atoms\<close>

text \<open>
  C8 (as amended). After any sequence of \<^verbatim>\<open>add_fact\<close> and \<^verbatim>\<open>add_rule\<close> calls on a
  new Database, every Atom reachable from an expression registered in the name-indexed
  mapping is in \<^verbatim>\<open>m_atoms\<close>, or is reachable from an \<^verbatim>\<open>Expression*\<close> that a caller
  passed to \<^verbatim>\<open>add_rule\<close>. When no call passes a pointer, every such Atom is in
  \<^verbatim>\<open>m_atoms\<close>.
\<close>

theorem reachable_terms_owned_or_supplied:
  assumes run: "run dflt cmds (h0, empty_database) = (h, db)"
    and e: "e \<in> set (stored db name)"
    and r: "reaches h e a"
    and a: "deref h a = Inr (Atom T v u)"
  shows "a \<in> set (m_atoms db) \<or> (\<exists>x\<in>set (concat (map supplied cmds)). reaches h x a)"
proof -
  from owned_run [OF owned_empty run] have ow: "owned (set (concat (map supplied cmds))) h db"
    by simp
  from a have al: "a < length h" "h ! a = Atom T v u"
    by (simp_all add: deref_def split: if_splits)
  from ow e have "\<not> is_Atom (h ! e)" by (simp add: owned_def)
  with al have "a \<noteq> e" by auto
  with owned_reaches [OF ow r e] show ?thesis by simp
qed

theorem reachable_terms_owned_or_supplied_witness:
  "4 \<in> set (stored (snd registry) ''parent'') \<and>
   reaches (fst registry) 4 2 \<and>
   deref (fst registry) 2 = Inr (Atom ''string'' ''alice'' True) \<and>
   2 \<in> set (m_atoms (snd registry))"
proof -
  have r: "run default_initialised
     [AddFact ''parent'' [Value ''string'' ''alice''],
      AddFact ''parent'' [Value ''string'' ''alice'', Value ''string'' ''bob''],
      AddRule ''parent'' [Var ''string'', Var ''string'']]
     ([], empty_database) = (fst registry, snd registry)"
    by (simp add: registry_def)
  have e: "4 \<in> set (stored (snd registry) ''parent'')" by (simp add: registry_eval)
  have d: "deref (fst registry) 4 = Inr (Fact [2, 3])" by (simp add: registry_eval deref_def)
  have re: "reaches (fst registry) 4 2"
    by (rule reaches.step [OF reaches.here d]) simp
  have a: "deref (fst registry) 2 = Inr (Atom ''string'' ''alice'' True)"
    by (simp add: registry_eval deref_def)
  from reachable_terms_owned_or_supplied [OF r e re a] e re a show ?thesis by simp
qed

text \<open>
  C8 as stated fails. The caller owns one Atom, at address 0, and passes its address to
  \<^verbatim>\<open>add_rule\<close>: \<^verbatim>\<open>add_arg(Expression*, ...)\<close> stores the pointer in the Rule and
  not in \<^verbatim>\<open>m_atoms\<close>. The Atom is reachable from the mapping and not in the pool.
\<close>

theorem pool_misses_supplied_counterexample:
  "fst (run default_initialised [AddRule ''likes'' [Expr 0]]
          ([Atom ''string'' ''x'' True], empty_database)) =
     [Atom ''string'' ''x'' True, Rule [0] []] \<and>
   stored (snd (run default_initialised [AddRule ''likes'' [Expr 0]]
          ([Atom ''string'' ''x'' True], empty_database))) ''likes'' = [1] \<and>
   reaches [Atom ''string'' ''x'' True, Rule [0] []] 1 0 \<and>
   deref [Atom ''string'' ''x'' True, Rule [0] []] 0 = Inr (Atom ''string'' ''x'' True) \<and>
   0 \<notin> set (m_atoms (snd (run default_initialised [AddRule ''likes'' [Expr 0]]
          ([Atom ''string'' ''x'' True], empty_database))))"
proof -
  have d: "deref [Atom ''string'' ''x'' True, Rule [0] []] 1 = Inr (Rule [0] [])"
    by (simp add: deref_def)
  have "reaches [Atom ''string'' ''x'' True, Rule [0] []] 1 0"
    by (rule reaches.step [OF reaches.here d]) simp
  then show ?thesis
    by (simp add: run_def add_rule_def new_def map_index_def empty_database_def stored_def
        deref_def)
qed

end
